theory Spec2Isabelle
  imports Main "HOL-Library.Sublist"
begin

section \<open>Configuration\<close>

text \<open>
  The module-level constants of \<^verbatim>\<open>crawler.js\<close>.  They are gathered in a record that
  every function takes as its first argument, so that a property can be stated for
  every value of a constant; \<open>default_config\<close> holds the values the source
  assigns.  \<^verbatim>\<open>TIMEOUT\<close> is only handed to the HTTP client and is kept for completeness.
  The three regular expressions of \<^verbatim>\<open>PRODUCT_PATTERNS\<close> contain no metacharacter:
  each is kept as the literal text it searches for.
\<close>

record config =
  MAX_DEPTH :: nat
  PRODUCT_PATTERNS :: "string list"
  TIMEOUT :: nat
  PARALLEL_REQUESTS :: nat
  RETRY_LIMIT :: nat
  DELAY_BETWEEN_REQUESTS :: nat

definition default_config :: config where
  "default_config =
     \<lparr> MAX_DEPTH = 3,
       PRODUCT_PATTERNS = [''/product/'', ''/item/'', ''/p/''],
       TIMEOUT = 10000,
       PARALLEL_REQUESTS = 5,
       RETRY_LIMIT = 3,
       DELAY_BETWEEN_REQUESTS = 1000 \<rparr>"

section \<open>Strings and URLs\<close>

text \<open>
  \<^verbatim>\<open>String.prototype.includes\<close>: does \<open>sub\<close> occur in \<open>s\<close> as a contiguous run of
  characters?  The search tries every start position from the left.
\<close>

fun str_includes :: "string \<Rightarrow> string \<Rightarrow> bool" where
  "str_includes [] sub = (sub = [])"
| "str_includes (c # s) sub = (prefix sub (c # s) \<or> str_includes s sub)"

text \<open>
  \<^verbatim>\<open>pattern.test(url)\<close> for a regular expression that is a literal without flags:
  an unanchored search for the literal.
\<close>

definition regex_test :: "string \<Rightarrow> string \<Rightarrow> bool" where
  "regex_test pattern url = str_includes url pattern"

text \<open>
  The fields of a parsed \<^verbatim>\<open>URL\<close> object that the crawler (or its specification)
  reads.
\<close>

record url =
  href :: string
  protocol :: string
  hostname :: string
  pathname :: string

text \<open>
  The platform's constructor \<^verbatim>\<open>new URL(input, base)\<close> is not part of the repository.
  The crawl functions take it as a parameter of this type; \<open>None\<close> stands for the
  \<^verbatim>\<open>TypeError\<close> the constructor throws.
\<close>

type_synonym url_constructor = "string \<Rightarrow> string \<Rightarrow> url option"

text \<open>
  For concrete runs, \<open>http_URL\<close> computes what the constructor answers on a
  fragment of its inputs, and on that fragment only:
  \<^item> the base is \<^verbatim>\<open>http://host\<close> or \<^verbatim>\<open>https://host\<close>, followed or not by a path, a
    query and a fragment;
  \<^item> the input has the same form, or is a path starting with a single \<^verbatim>\<open>/\<close>,
    followed or not by a query and a fragment;
  \<^item> a host is made of lower-case letters, digits, \<^verbatim>\<open>-\<close> and \<^verbatim>\<open>.\<close> and ends in a letter
    (so it is no number form, which the platform rewrites, and has no port and no user
    information);
  \<^item> a path has no dot segment and no character that the platform escapes.
  Outside the fragment the definition is not a model of the platform: the platform
  also resolves the empty input and inputs relative to the path of the base, where the
  definition answers \<open>None\<close>, and it rewrites some hosts that the definition keeps.
  Every theorem that evaluates \<open>http_URL\<close> does so on inputs of the fragment.
\<close>

definition parse_http :: "string \<Rightarrow> url option" where
  "parse_http s =
     (let scheme = (if prefix ''https://'' s then ''https:''
                    else if prefix ''http://'' s then ''http:'' else [])
      in if scheme = [] then None
         else
           let rest = drop (length scheme + 2) s;
               host = takeWhile (\<lambda>c. c \<notin> set ''/?#'') rest;
               tail = dropWhile (\<lambda>c. c \<notin> set ''/?#'') rest;
               path = takeWhile (\<lambda>c. c \<notin> set ''?#'') tail;
               query = dropWhile (\<lambda>c. c \<notin> set ''?#'') tail;
               path' = (if path = [] then ''/'' else path)
           in if host = [] then None
              else Some \<lparr> href = scheme @ ''//'' @ host @ path' @ query,
                          protocol = scheme,
                          hostname = host,
                          pathname = path' \<rparr>)"

definition http_URL :: url_constructor where
  "http_URL input base =
     (case parse_http base of
        None \<Rightarrow> None
      | Some b \<Rightarrow>
          (case parse_http input of
             Some u \<Rightarrow> Some u
           | None \<Rightarrow>
               if prefix ''/'' input \<and> \<not> prefix ''//'' input
               then parse_http (protocol b @ ''//'' @ hostname b @ input)
               else None))"

section \<open>Link validation and classification\<close>

text \<open>
  \<^verbatim>\<open>isValidUrl(url, baseDomain)\<close>: resolve the link against the base; an exception of
  the constructor is caught and answered \<^verbatim>\<open>false\<close>.  The test is
  \<^verbatim>\<open>parsedUrl.hostname.includes(baseDomain)\<close>, with the whole string \<open>baseDomain\<close>
  as the needle.
\<close>

definition isValidUrl :: "url_constructor \<Rightarrow> string \<Rightarrow> string \<Rightarrow> bool" where
  "isValidUrl new_URL url baseDomain =
     (case new_URL url baseDomain of
        None \<Rightarrow> False
      | Some parsedUrl \<Rightarrow> str_includes (hostname parsedUrl) baseDomain)"

text \<open>\<^verbatim>\<open>isProductUrl(url)\<close>: \<^verbatim>\<open>PRODUCT_PATTERNS.some(pattern => pattern.test(url))\<close>.\<close>

definition isProductUrl :: "config \<Rightarrow> string \<Rightarrow> bool" where
  "isProductUrl cfg url = list_ex (\<lambda>pattern. regex_test pattern url) (PRODUCT_PATTERNS cfg)"

section \<open>The environment of a crawl\<close>

text \<open>
  What one pass through the \<^verbatim>\<open>try\<close> block of \<^verbatim>\<open>crawlUrl\<close> can meet:
  \<^item> \<open>Page links\<close>: \<^verbatim>\<open>axios.get\<close> resolved and \<^verbatim>\<open>cheerio\<close> found the anchors whose
    \<^verbatim>\<open>href\<close> attributes are \<open>links\<close>, in document order;
  \<^item> \<open>RateLimited\<close>: the request was rejected with \<^verbatim>\<open>err.response.status === 429\<close>;
  \<^item> \<open>Failed\<close>: anything else was thrown (time-out, connection error, another HTTP
    status, a body the parser refuses).
\<close>

datatype outcome = Page "string list" | RateLimited | Failed

text \<open>
  The network and the URL constructor.  \<open>axios_get w n u\<close> is the outcome of a request
  for \<open>u\<close> issued when the domain crawl has already issued \<open>n\<close> requests, so a server
  may answer the same URL differently at each attempt.
\<close>

record world =
  new_URL :: url_constructor
  axios_get :: "nat \<Rightarrow> string \<Rightarrow> outcome"

text \<open>
  What a run does, in order: insertions into \<^verbatim>\<open>visitedUrls\<close>, requests, timer waits
  (\<^verbatim>\<open>delay(ms)\<close>) and the three log lines.
\<close>

datatype event =
    Add string
  | Get string
  | Delay nat
  | LogRateLimit string
  | LogFailure string
  | LogDomain string

text \<open>
  The state of one domain crawl: the set \<^verbatim>\<open>visitedUrls\<close>, the number of requests
  issued so far, and the history of the run.  Only the set is data of the program; the
  counter selects the answer of the network, and the history records what the run did,
  so that properties of the order of its steps can be stated.
\<close>

record crawl_state =
  visitedUrls :: "string set"
  requests :: nat
  trace :: "event list"

section \<open>Crawling one URL\<close>

text \<open>
  \<^verbatim>\<open>Set.prototype.add\<close> on a set kept in insertion order, which is the order
  \<^verbatim>\<open>Array.from\<close> reads it in.
\<close>

definition set_add :: "'a \<Rightarrow> 'a list \<Rightarrow> 'a list" where
  "set_add x xs = (if x \<in> set xs then xs else xs @ [x])"

text \<open>
  The callback of \<^verbatim>\<open>$('a[href]').each\<close>, run over the links of a page from the pair
  (\<^verbatim>\<open>productUrls\<close>, \<^verbatim>\<open>internalUrls\<close>).  The second call of the constructor, for
  \<^verbatim>\<open>.href\<close>, sits outside \<^verbatim>\<open>isValidUrl\<close>: were it to throw, the exception would
  leave the callback, which is the result \<open>None\<close>.
\<close>

fun each_link ::
  "config \<Rightarrow> world \<Rightarrow> string \<Rightarrow> string set \<Rightarrow> string list \<Rightarrow>
   string list \<times> string list \<Rightarrow> (string list \<times> string list) option"
where
  "each_link cfg w baseDomain visited [] acc = Some acc"
| "each_link cfg w baseDomain visited (link # links) (productUrls, internalUrls) =
     (if isValidUrl (new_URL w) link baseDomain then
        (case new_URL w link baseDomain of
           None \<Rightarrow> None
         | Some parsed \<Rightarrow>
             (let absoluteUrl = href parsed in
              if isProductUrl cfg absoluteUrl then
                each_link cfg w baseDomain visited links
                  (set_add absoluteUrl productUrls, internalUrls)
              else if absoluteUrl \<notin> visited then
                each_link cfg w baseDomain visited links
                  (productUrls, internalUrls @ [absoluteUrl])
              else each_link cfg w baseDomain visited links (productUrls, internalUrls)))
      else each_link cfg w baseDomain visited links (productUrls, internalUrls))"

text \<open>
  The rank of a call of one of the three functions below, by which their recursion
  ends: the depths still allowed, then the attempts still allowed or the children
  still to expand, compared lexicographically.  The summands are the argument tuples of
  \<open>crawlUrl\<close>, \<open>attempt\<close> and \<open>crawl_internal\<close>.
\<close>

definition crawl_rank ::
  "(config \<times> world \<times> string \<times> string \<times> nat \<times> crawl_state) +
   (config \<times> world \<times> string \<times> string \<times> nat \<times> nat \<times> crawl_state) +
   (config \<times> world \<times> string list \<times> string \<times> nat \<times> string list \<times> crawl_state)
   \<Rightarrow> nat \<times> nat \<times> nat"
where
  "crawl_rank x =
     (case x of
        Inl (cfg, w, url, baseDomain, depth, s) \<Rightarrow>
          (2 * (MAX_DEPTH cfg + 1 - depth), 0, 0)
      | Inr (Inl (cfg, w, url, baseDomain, depth, attempts, s)) \<Rightarrow>
          (2 * (MAX_DEPTH cfg - depth) + 1, RETRY_LIMIT cfg - attempts, 0)
      | Inr (Inr (cfg, w, internalUrls, baseDomain, depth, productUrls, s)) \<Rightarrow>
          (2 * (MAX_DEPTH cfg + 1 - depth), 1, length internalUrls))"

text \<open>
  \<^verbatim>\<open>crawlUrl\<close> is three mutually recursive functions:
  \<^item> \<open>crawlUrl\<close>: the guard and the insertion into \<^verbatim>\<open>visitedUrls\<close>;
  \<^item> \<open>attempt\<close>: the \<^verbatim>\<open>while (attempts < RETRY_LIMIT)\<close> loop with its
    \<^verbatim>\<open>try\<close>/\<^verbatim>\<open>catch\<close>;
  \<^item> \<open>crawl_internal\<close>: the \<^verbatim>\<open>for (const internalUrl of internalUrls)\<close> loop, whose
    \<open>depth\<close> argument is the depth of the children (\<^verbatim>\<open>depth + 1\<close>).
  Each returns the array of product URLs and the state it leaves.
\<close>

function
  crawlUrl ::
    "config \<Rightarrow> world \<Rightarrow> string \<Rightarrow> string \<Rightarrow> nat \<Rightarrow> crawl_state \<Rightarrow>
     string list \<times> crawl_state"
and attempt ::
    "config \<Rightarrow> world \<Rightarrow> string \<Rightarrow> string \<Rightarrow> nat \<Rightarrow> nat \<Rightarrow> crawl_state \<Rightarrow>
     string list \<times> crawl_state"
and crawl_internal ::
    "config \<Rightarrow> world \<Rightarrow> string list \<Rightarrow> string \<Rightarrow> nat \<Rightarrow> string list \<Rightarrow> crawl_state \<Rightarrow>
     string list \<times> crawl_state"
where
  "crawlUrl cfg w url baseDomain depth s =
     (if depth > MAX_DEPTH cfg \<or> url \<in> visitedUrls s then ([], s)
      else attempt cfg w url baseDomain depth 0
             (s\<lparr>visitedUrls := insert url (visitedUrls s), trace := trace s @ [Add url]\<rparr>))"
| "attempt cfg w url baseDomain depth attempts s =
     (if attempts < RETRY_LIMIT cfg then
        (let s1 = s\<lparr>requests := Suc (requests s), trace := trace s @ [Get url]\<rparr> in
         case axios_get w (requests s) url of
           Page links \<Rightarrow>
             (case each_link cfg w baseDomain (visitedUrls s1) links ([], []) of
                Some (productUrls, internalUrls) \<Rightarrow>
                  crawl_internal cfg w internalUrls baseDomain (depth + 1) productUrls s1
              | None \<Rightarrow> ([], s1\<lparr>trace := trace s1 @ [LogFailure url]\<rparr>))
         | RateLimited \<Rightarrow>
             attempt cfg w url baseDomain depth (attempts + 1)
               (s1\<lparr>trace := trace s1 @ [LogRateLimit url, Delay 3000]\<rparr>)
         | Failed \<Rightarrow> ([], s1\<lparr>trace := trace s1 @ [LogFailure url]\<rparr>))
      else ([], s))"
| "crawl_internal cfg w [] baseDomain depth productUrls s = (productUrls, s)"
| "crawl_internal cfg w (internalUrl # rest) baseDomain depth productUrls s =
     (let s1 = s\<lparr>trace := trace s @ [Delay (DELAY_BETWEEN_REQUESTS cfg)]\<rparr>;
          (childProductUrls, s2) = crawlUrl cfg w internalUrl baseDomain depth s1
      in crawl_internal cfg w rest baseDomain depth
           (fold set_add childProductUrls productUrls) s2)"
  by pat_completeness auto

termination
  by (relation "inv_image (less_than <*lex*> less_than <*lex*> less_than) crawl_rank")
     (auto simp: crawl_rank_def)

declare crawlUrl.simps [simp del] attempt.simps [simp del]

section \<open>Crawling domains\<close>

record domain_result =
  domain :: string
  productUrls :: "string list"

text \<open>The state \<^verbatim>\<open>crawlDomain\<close> starts from: a fresh set, after its log line.\<close>

definition initial_state :: "string \<Rightarrow> crawl_state" where
  "initial_state d = \<lparr>visitedUrls = {}, requests = 0, trace = [LogDomain d]\<rparr>"

text \<open>
  \<^verbatim>\<open>crawlDomain(domain)\<close> calls \<^verbatim>\<open>crawlUrl(domain, domain, visitedUrls, 0)\<close>;
  \<open>crawlDomain_run\<close> is that call, with the state it leaves.
\<close>

definition crawlDomain_run :: "config \<Rightarrow> world \<Rightarrow> string \<Rightarrow> string list \<times> crawl_state" where
  "crawlDomain_run cfg w d = crawlUrl cfg w d d 0 (initial_state d)"

definition crawlDomain :: "config \<Rightarrow> world \<Rightarrow> string \<Rightarrow> domain_result" where
  "crawlDomain cfg w d =
     \<lparr>domain = d, productUrls = fst (crawlDomain_run cfg w d)\<rparr>"

text \<open>\<^verbatim>\<open>domains.slice(i, j)\<close> for \<open>0 \<le> i \<le> j\<close>: the end is clamped to the length.\<close>

definition slice :: "'a list \<Rightarrow> nat \<Rightarrow> nat \<Rightarrow> 'a list" where
  "slice xs i j = take (j - i) (drop i xs)"

text \<open>
  What the loop of \<^verbatim>\<open>crawlDomains\<close> does, in order: \<open>TaskStarted d\<close> is the call
  \<^verbatim>\<open>crawlDomain(d)\<close> that \<^verbatim>\<open>map\<close> makes, which starts the crawl of \<open>d\<close> and hands
  back its promise; \<open>BatchSettled ds\<close> is the moment \<^verbatim>\<open>await Promise.all(tasks)\<close>
  resumes, all the tasks started for \<open>ds\<close> having settled.
\<close>

datatype orchestration = TaskStarted string | BatchSettled "string list"

text \<open>
  The loop of \<^verbatim>\<open>crawlDomains\<close>, with the results so far and the history so far.
  \<^verbatim>\<open>Promise.all\<close> answers with the results of its tasks in the order of the tasks, once
  all of them have settled; no task rejects, since \<^verbatim>\<open>crawlUrl\<close> catches what its body
  throws.  The tasks of a batch share no state, so the result of each is computed on
  its own.  With a step of \<open>0\<close> the index never advances: the loop is a partial
  function, and \<open>None\<close> is a run that does not return.
\<close>

partial_function (option) crawlDomains_loop ::
  "config \<Rightarrow> world \<Rightarrow> string list \<Rightarrow> nat \<Rightarrow> domain_result list \<Rightarrow> orchestration list \<Rightarrow>
   (domain_result list \<times> orchestration list) option"
where
  "crawlDomains_loop cfg w domains i results history =
     (if i < length domains then
        crawlDomains_loop cfg w domains (i + PARALLEL_REQUESTS cfg)
          (results @ map (crawlDomain cfg w) (slice domains i (i + PARALLEL_REQUESTS cfg)))
          (history @ map TaskStarted (slice domains i (i + PARALLEL_REQUESTS cfg)) @
             [BatchSettled (slice domains i (i + PARALLEL_REQUESTS cfg))])
      else Some (results, history))"

text \<open>
  \<open>crawlDomains_run\<close> is the run of \<^verbatim>\<open>crawlDomains(domains)\<close> with its history;
  \<open>crawlDomains\<close> is what the function returns.
\<close>

definition crawlDomains_run ::
  "config \<Rightarrow> world \<Rightarrow> string list \<Rightarrow> (domain_result list \<times> orchestration list) option" where
  "crawlDomains_run cfg w domains = crawlDomains_loop cfg w domains 0 [] []"

definition crawlDomains :: "config \<Rightarrow> world \<Rightarrow> string list \<Rightarrow> domain_result list option" where
  "crawlDomains cfg w domains = map_option fst (crawlDomains_run cfg w domains)"

declare crawlDomains_loop.simps [code]

section \<open>Histories\<close>

text \<open>The URLs inserted into \<^verbatim>\<open>visitedUrls\<close> and the URLs requested, oldest first.\<close>

fun added :: "event list \<Rightarrow> string list" where
  "added [] = []"
| "added (Add u # tr) = u # added tr"
| "added (e # tr) = added tr"

fun got :: "event list \<Rightarrow> string list" where
  "got [] = []"
| "got (Get u # tr) = u # got tr"
| "got (e # tr) = got tr"

text \<open>
  \<open>added_before_get A tr\<close>: every request of the history \<open>tr\<close> is for a URL that is in
  \<open>A\<close> or was inserted earlier in \<open>tr\<close>.
\<close>

fun added_before_get :: "string set \<Rightarrow> event list \<Rightarrow> bool" where
  "added_before_get A [] = True"
| "added_before_get A (Add u # tr) = added_before_get (insert u A) tr"
| "added_before_get A (Get u # tr) = (u \<in> A \<and> added_before_get A tr)"
| "added_before_get A (e # tr) = added_before_get A tr"

text \<open>
  \<open>retried_only_after_429 w g\<close>, for the list \<open>g\<close> of the URLs requested so far: a URL
  is requested again only when each earlier request for it was answered 429.  The
  request at position \<open>i\<close> of the list is the one answered by \<open>axios_get w i\<close>.
\<close>

definition retried_only_after_429 :: "world \<Rightarrow> string list \<Rightarrow> bool" where
  "retried_only_after_429 w g \<longleftrightarrow>
     (\<forall>j < length g. \<forall>i < j. g ! i = g ! j \<longrightarrow> axios_get w i (g ! i) = RateLimited)"

text \<open>
  The invariant of a domain crawl: \<^verbatim>\<open>visitedUrls\<close> holds exactly the URLs the history
  inserted, none of them twice; requests come after the insertion of their URL; the
  counter agrees with the history; no URL was requested more often than one run of
  the retry loop allows; and a repeated request is a retry after a 429.
\<close>

definition crawl_inv :: "config \<Rightarrow> world \<Rightarrow> crawl_state \<Rightarrow> bool" where
  "crawl_inv cfg w s \<longleftrightarrow>
     visitedUrls s = set (added (trace s)) \<and>
     distinct (added (trace s)) \<and>
     added_before_get {} (trace s) \<and>
     requests s = length (got (trace s)) \<and>
     (\<forall>u. count_list (got (trace s)) u \<le> RETRY_LIMIT cfg) \<and>
     retried_only_after_429 w (got (trace s))"

section \<open>The specification's wording\<close>

text \<open>
  The specification's validity of a link: it resolves against the base location, and
  the host of the result contains the host of the target domain (the host of the base
  location resolved by itself).
\<close>

definition link_on_target_host :: "url_constructor \<Rightarrow> string \<Rightarrow> string \<Rightarrow> bool" where
  "link_on_target_host ctor link baseLocation =
     (case ctor link baseLocation of
        None \<Rightarrow> False
      | Some resolved \<Rightarrow>
          (case ctor baseLocation baseLocation of
             None \<Rightarrow> False
           | Some target \<Rightarrow> str_includes (hostname resolved) (hostname target)))"

text \<open>
  The specification's classifier: the path of the URL is tested against the patterns.
\<close>

definition classify_by_path :: "config \<Rightarrow> url_constructor \<Rightarrow> string \<Rightarrow> bool" where
  "classify_by_path cfg ctor absoluteUrl =
     (case ctor absoluteUrl absoluteUrl of
        None \<Rightarrow> False
      | Some parsed \<Rightarrow>
          list_ex (\<lambda>pattern. regex_test pattern (pathname parsed)) (PRODUCT_PATTERNS cfg))"

text \<open>
  The specification's batches: the list cut into consecutive pieces of \<open>n\<close> elements,
  the last piece holding what remains.
\<close>

function batches :: "nat \<Rightarrow> 'a list \<Rightarrow> 'a list list" where
  "batches n xs = (if n = 0 \<or> xs = [] then [] else take n xs # batches n (drop n xs))"
  by pat_completeness auto
termination
  by (relation "measure (\<lambda>(n, xs). length xs)") auto

declare batches.simps [simp del]

text \<open>
  The history of a run that takes the batches \<open>bs\<close> one after the other: for each batch,
  its tasks are started, then all of them settle.
\<close>

definition batch_history :: "string list list \<Rightarrow> orchestration list" where
  "batch_history bs = concat (map (\<lambda>b. map TaskStarted b @ [BatchSettled b]) bs)"

text \<open>
  \<open>batch_by_batch n running h\<close>, where \<open>running\<close> are the tasks started and not yet
  settled when the history \<open>h\<close> begins: whenever tasks settle in \<open>h\<close>, they are exactly
  the tasks running (at least one, at most \<open>n\<close>), so no task is started while an
  earlier batch is still running; and no task is left running at the end.
\<close>

fun batch_by_batch :: "nat \<Rightarrow> string list \<Rightarrow> orchestration list \<Rightarrow> bool" where
  "batch_by_batch n running [] = (running = [])"
| "batch_by_batch n running (TaskStarted d # h) = batch_by_batch n (running @ [d]) h"
| "batch_by_batch n running (BatchSettled ds # h) =
     (ds = running \<and> ds \<noteq> [] \<and> length ds \<le> n \<and> batch_by_batch n [] h)"

text \<open>The batches that settled in a history, in order.\<close>

fun settled :: "orchestration list \<Rightarrow> string list list" where
  "settled [] = []"
| "settled (BatchSettled ds # h) = ds # settled h"
| "settled (TaskStarted d # h) = settled h"

section \<open>Example sites\<close>

text \<open>
  The site of the specification's scenario, served at \<^verbatim>\<open>https://example1.com\<close>: the root
  page links to \<^verbatim>\<open>/product/42\<close> and \<^verbatim>\<open>/about\<close>, and \<^verbatim>\<open>/about\<close> links to
  \<^verbatim>\<open>/product/99\<close>.  Every other request fails.
\<close>

definition scenario_site :: "nat \<Rightarrow> string \<Rightarrow> outcome" where
  "scenario_site n u =
     (if u = ''https://example1.com'' \<or> u = ''https://example1.com/''
      then Page [''/product/42'', ''/about'']
      else if u = ''https://example1.com/about'' then Page [''/product/99'']
      else Failed)"

definition scenario_world :: world where
  "scenario_world = \<lparr>new_URL = http_URL, axios_get = scenario_site\<rparr>"

text \<open>A site whose root page holds one link, to a product page.\<close>

definition shop_site :: "nat \<Rightarrow> string \<Rightarrow> outcome" where
  "shop_site n u =
     (if u = ''https://shop.test'' \<or> u = ''https://shop.test/''
      then Page [''/item/1''] else Failed)"

definition shop_world :: world where
  "shop_world = \<lparr>new_URL = http_URL, axios_get = shop_site\<rparr>"

text \<open>
  A server that answers every request with the same outcome, and one that limits the
  first request of a crawl and serves the scenario's pages afterwards.
\<close>

definition constant_world :: "outcome \<Rightarrow> world" where
  "constant_world out = \<lparr>new_URL = http_URL, axios_get = (\<lambda>n u. out)\<rparr>"

definition busy_world :: world where
  "busy_world =
     \<lparr>new_URL = http_URL,
      axios_get = (\<lambda>n u. if n = 0 then RateLimited else scenario_site n u)\<rparr>"

text \<open>
  \<open>echo_URL\<close> is not the platform's constructor.  It is the simplest constructor that
  \<^verbatim>\<open>isValidUrl\<close> is satisfied with: it takes the base string for the host and appends the
  input to it.  It serves to run the traversal past the first page, on \<open>loop_site\<close>: the
  root page \<^verbatim>\<open>shop\<close> links to a product and to the page \<^verbatim>\<open>/a\<close>, which links to
  itself, back to the root, to a second product and to the first one again.
\<close>

definition echo_URL :: url_constructor where
  "echo_URL input base =
     Some \<lparr>href = base @ input, protocol = [], hostname = base, pathname = input\<rparr>"

definition loop_site :: "nat \<Rightarrow> string \<Rightarrow> outcome" where
  "loop_site n u =
     (if u = ''shop'' then Page [''/item/1'', ''/a'']
      else if u = ''shop/a'' then Page [''/a'', [], ''/item/2'', ''/item/1'']
      else Failed)"



section \<open>Strings\<close>

lemma str_includes_iff_sublist: "str_includes s sub \<longleftrightarrow> sublist sub s"
  by (induction s) (auto simp: sublist_Cons_right)

section \<open>Histories: basic facts\<close>

lemma added_append: "added (xs @ ys) = added xs @ added ys"
  by (induction xs rule: added.induct) simp_all

lemma got_append: "got (xs @ ys) = got xs @ got ys"
  by (induction xs rule: got.induct) simp_all

lemma set_added: "set (added tr) = {u. Add u \<in> set tr}"
  by (induction tr rule: added.induct) auto

lemma added_before_get_append:
  "added_before_get A (xs @ ys) \<longleftrightarrow>
     added_before_get A xs \<and> added_before_get (A \<union> set (added xs)) ys"
  by (induction A xs rule: added_before_get.induct) simp_all

lemma added_before_get_split:
  "added_before_get A tr \<Longrightarrow> tr = pre @ Get u # post \<Longrightarrow> u \<in> A \<or> Add u \<in> set pre"
  by (simp add: added_before_get_append set_added)

lemma got_subset: "added_before_get A tr \<Longrightarrow> set (got tr) \<subseteq> A \<union> set (added tr)"
  by (induction A tr rule: added_before_get.induct) auto

section \<open>The visited set and the history of a crawl\<close>

lemma crawl_internal_Cons:
  "crawl_internal cfg w (u # rest) b d acc s =
     (let r = crawlUrl cfg w u b d (s\<lparr>trace := trace s @ [Delay (DELAY_BETWEEN_REQUESTS cfg)]\<rparr>)
      in crawl_internal cfg w rest b d (fold set_add (fst r) acc) (snd r))"
  by (simp add: Let_def split: prod.splits)

text \<open>No call removes a URL from \<^verbatim>\<open>visitedUrls\<close>.\<close>

lemma visited_mono:
  shows "visitedUrls s \<subseteq> visitedUrls (snd (crawlUrl cfg w url baseDomain depth s))"
    and "visitedUrls s \<subseteq> visitedUrls (snd (attempt cfg w url baseDomain depth attempts s))"
    and "visitedUrls s \<subseteq>
           visitedUrls (snd (crawl_internal cfg w internalUrls baseDomain depth found s))"
proof (induction cfg w url baseDomain depth s
         and cfg w url baseDomain depth attempts s
         and cfg w internalUrls baseDomain depth found s
       rule: crawlUrl_attempt_crawl_internal.induct)
  case (1 cfg w url baseDomain depth s)
  then show ?case
    by (subst crawlUrl.simps) auto
next
  case (2 cfg w url baseDomain depth attempts s)
  then show ?case
    by (subst attempt.simps) (auto simp: Let_def split: outcome.splits option.splits prod.splits)
next
  case (3 cfg w baseDomain depth found s)
  then show ?case by simp
next
  case (4 cfg w internalUrl rest baseDomain depth found s)
  let ?s1 = "s\<lparr>trace := trace s @ [Delay (DELAY_BETWEEN_REQUESTS cfg)]\<rparr>"
  let ?r = "crawlUrl cfg w internalUrl baseDomain depth ?s1"
  have a: "visitedUrls s \<subseteq> visitedUrls (snd ?r)"
    using "4.IH"(1)[OF refl] by simp
  have b: "visitedUrls (snd ?r) \<subseteq>
      visitedUrls (snd (crawl_internal cfg w rest baseDomain depth
                          (fold set_add (fst ?r) found) (snd ?r)))"
    by (rule "4.IH"(2)[OF refl refl]) simp
  show ?case
    unfolding crawl_internal_Cons Let_def using a b by (rule subset_trans)
qed

lemma retried_snoc:
  "retried_only_after_429 w g \<Longrightarrow>
   (\<forall>i < length g. g ! i = u \<longrightarrow> axios_get w i u = RateLimited) \<Longrightarrow>
   retried_only_after_429 w (g @ [u])"
  by (auto simp: retried_only_after_429_def nth_append less_Suc_eq)

text \<open>
  Every call keeps the invariant.  The retry loop for \<open>url\<close> needs more: \<open>url\<close> is already
  in the set, the requests made for it so far leave room for the attempts to come, and
  each of them was answered 429.
\<close>

lemma crawl_inv_step:
  shows "crawl_inv cfg w s \<Longrightarrow> crawl_inv cfg w (snd (crawlUrl cfg w url baseDomain depth s))"
    and "crawl_inv cfg w s \<Longrightarrow> url \<in> visitedUrls s \<Longrightarrow>
         count_list (got (trace s)) url + (RETRY_LIMIT cfg - attempts) \<le> RETRY_LIMIT cfg \<Longrightarrow>
         (\<forall>i < length (got (trace s)).
            got (trace s) ! i = url \<longrightarrow> axios_get w i url = RateLimited) \<Longrightarrow>
         crawl_inv cfg w (snd (attempt cfg w url baseDomain depth attempts s))"
    and "crawl_inv cfg w s \<Longrightarrow>
         crawl_inv cfg w (snd (crawl_internal cfg w internalUrls baseDomain depth found s))"
proof (induction cfg w url baseDomain depth s
         and cfg w url baseDomain depth attempts s
         and cfg w internalUrls baseDomain depth found s
       rule: crawlUrl_attempt_crawl_internal.induct)
  case (1 cfg w url baseDomain depth s)
  show ?case
  proof (cases "MAX_DEPTH cfg < depth \<or> url \<in> visitedUrls s")
    case True
    then show ?thesis using "1.prems" by (subst crawlUrl.simps) simp
  next
    case False
    let ?s1 = "s\<lparr>visitedUrls := insert url (visitedUrls s), trace := trace s @ [Add url]\<rparr>"
    from False have fresh: "url \<notin> visitedUrls s" by simp
    have "set (got (trace s)) \<subseteq> visitedUrls s"
      using "1.prems" got_subset[of "{}" "trace s"] by (simp add: crawl_inv_def)
    with fresh have unrequested: "url \<notin> set (got (trace s))" by blast
    then have zero: "count_list (got (trace s)) url = 0"
      by (rule count_notin)
    from unrequested
    have none: "\<forall>i < length (got (trace s)).
                  got (trace s) ! i = url \<longrightarrow> axios_get w i url = RateLimited"
      by (metis nth_mem)
    have inv1: "crawl_inv cfg w ?s1"
      using "1.prems" fresh
      by (simp add: crawl_inv_def added_append got_append added_before_get_append)
    have "crawl_inv cfg w (snd (attempt cfg w url baseDomain depth 0 ?s1))"
      using inv1 zero none by (intro "1.IH"[OF False]) (simp_all add: got_append)
    then show ?thesis using False by (subst crawlUrl.simps) simp
  qed
next
  case (2 cfg w url baseDomain depth attempts s)
  show ?case
  proof (cases "attempts < RETRY_LIMIT cfg")
    case False
    then show ?thesis using "2.prems" by (subst attempt.simps) simp
  next
    case True
    let ?s1 = "s\<lparr>requests := Suc (requests s), trace := trace s @ [Get url]\<rparr>"
    have retried: "retried_only_after_429 w (got (trace s) @ [url])"
      using "2.prems"(1,4) by (intro retried_snoc) (simp_all add: crawl_inv_def)
    have inv1: "crawl_inv cfg w ?s1"
      using "2.prems"(1,2,3) True retried
      by (auto simp: crawl_inv_def added_append got_append added_before_get_append)
    have invlog: "crawl_inv cfg w (?s1\<lparr>trace := trace ?s1 @ [LogFailure url]\<rparr>)"
      using inv1 by (simp add: crawl_inv_def added_append got_append added_before_get_append)
    show ?thesis
    proof (cases "axios_get w (requests s) url")
      case (Page links)
      show ?thesis
      proof (cases "each_link cfg w baseDomain (visitedUrls ?s1) links ([], [])")
        case None
        then show ?thesis using True Page invlog
          by (subst attempt.simps) (simp add: Let_def)
      next
        case (Some pq)
        obtain ps qs where pq: "pq = (ps, qs)" by (cases pq)
        have "crawl_inv cfg w (snd (crawl_internal cfg w qs baseDomain (depth + 1) ps ?s1))"
          using "2.IH"(1)[OF True refl Page Some pq[symmetric]] inv1 by simp
        then show ?thesis using True Page Some pq
          by (subst attempt.simps) (simp add: Let_def)
      qed
    next
      case RateLimited
      let ?s2 = "?s1\<lparr>trace := trace ?s1 @ [LogRateLimit url, Delay 3000]\<rparr>"
      have inv2: "crawl_inv cfg w ?s2"
        using inv1 by (simp add: crawl_inv_def added_append got_append added_before_get_append)
      have len: "requests s = length (got (trace s))"
        using "2.prems"(1) by (simp add: crawl_inv_def)
      have answered: "\<forall>i < length (got (trace ?s2)).
                        got (trace ?s2) ! i = url \<longrightarrow> axios_get w i url = RateLimited"
        using "2.prems"(4) RateLimited len
        by (auto simp: got_append nth_append less_Suc_eq)
      have "crawl_inv cfg w (snd (attempt cfg w url baseDomain depth (attempts + 1) ?s2))"
        using "2.prems"(2,3) True inv2 answered
        by (intro "2.IH"(2)[OF True refl RateLimited]) (simp_all add: got_append)
      then show ?thesis using True RateLimited
        by (subst attempt.simps) (simp add: Let_def)
    next
      case Failed
      then show ?thesis using True invlog
        by (subst attempt.simps) (simp add: Let_def)
    qed
  qed
next
  case (3 cfg w baseDomain depth found s)
  then show ?case by simp
next
  case (4 cfg w internalUrl rest baseDomain depth found s)
  let ?s1 = "s\<lparr>trace := trace s @ [Delay (DELAY_BETWEEN_REQUESTS cfg)]\<rparr>"
  let ?r = "crawlUrl cfg w internalUrl baseDomain depth ?s1"
  have "crawl_inv cfg w ?s1"
    using "4.prems" by (simp add: crawl_inv_def added_append got_append added_before_get_append)
  then have a: "crawl_inv cfg w (snd ?r)"
    using "4.IH"(1)[OF refl] by simp
  have "crawl_inv cfg w (snd (crawl_internal cfg w rest baseDomain depth
                          (fold set_add (fst ?r) found) (snd ?r)))"
    using a by (intro "4.IH"(2)[OF refl refl]) simp_all
  then show ?case
    unfolding crawl_internal_Cons Let_def .
qed

lemma crawl_inv_initial: "crawl_inv cfg w (initial_state d)"
  by (simp add: crawl_inv_def initial_state_def retried_only_after_429_def)

section \<open>The retry loop under rate limiting\<close>

lemma attempt_all_rate_limited:
  "\<forall>k < RETRY_LIMIT cfg - attempts. axios_get w (requests s + k) url = RateLimited \<Longrightarrow>
   attempt cfg w url b depth attempts s =
     ([], s\<lparr>requests := requests s + (RETRY_LIMIT cfg - attempts),
             trace := trace s @
               concat (replicate (RETRY_LIMIT cfg - attempts)
                         [Get url, LogRateLimit url, Delay 3000])\<rparr>)"
proof (induction "RETRY_LIMIT cfg - attempts" arbitrary: attempts s)
  case 0
  then show ?case by (subst attempt.simps) simp
next
  case (Suc n)
  let ?s1 = "s\<lparr>requests := Suc (requests s),
                 trace := trace s @ [Get url, LogRateLimit url, Delay 3000]\<rparr>"
  from Suc.hyps(2) have lt: "attempts < RETRY_LIMIT cfg"
    and n: "n = RETRY_LIMIT cfg - (attempts + 1)" by arith+
  from Suc.prems Suc.hyps(2) have first: "axios_get w (requests s) url = RateLimited"
    by (metis add.right_neutral zero_less_Suc)
  have rest: "\<forall>k < RETRY_LIMIT cfg - (attempts + 1).
                axios_get w (requests ?s1 + k) url = RateLimited"
  proof (intro allI impI)
    fix k assume "k < RETRY_LIMIT cfg - (attempts + 1)"
    then have "Suc k < RETRY_LIMIT cfg - attempts" by arith
    with Suc.prems have "axios_get w (requests s + Suc k) url = RateLimited" by blast
    then show "axios_get w (requests ?s1 + k) url = RateLimited" by simp
  qed
  have step: "attempt cfg w url b depth attempts s =
              attempt cfg w url b depth (attempts + 1) ?s1"
    using lt first by (subst attempt.simps) (simp add: Let_def)
  show ?case
    unfolding step Suc.hyps(1)[OF n rest]
    using Suc.hyps(2)[symmetric] n[symmetric] by simp
qed

lemma count_concat_replicate:
  "count_list (concat (replicate n xs)) x = n * count_list xs x"
  by (induction n) simp_all

section \<open>The links that the host test lets through\<close>

text \<open>
  The callback never throws: where \<^verbatim>\<open>isValidUrl\<close> answered true, the constructor
  answers again.
\<close>

lemma each_link_returns:
  "\<exists>r. each_link cfg w baseDomain visited links acc = Some r"
proof (induction links arbitrary: acc)
  case Nil
  show ?case by simp
next
  case (Cons link links)
  obtain ps qs where acc: "acc = (ps, qs)" by (cases acc)
  show ?case
    unfolding acc using Cons.IH
    by (auto simp: isValidUrl_def Let_def split: option.splits)
qed

text \<open>
  When \<^verbatim>\<open>isValidUrl\<close> accepts no link, a page yields neither a product URL nor a
  child, and a crawl returns the empty array.
\<close>

lemma each_link_no_valid_link:
  "\<forall>link. \<not> isValidUrl (new_URL w) link baseDomain \<Longrightarrow>
   each_link cfg w baseDomain visited links acc = Some acc"
proof (induction links arbitrary: acc)
  case Nil
  show ?case by simp
next
  case (Cons link links)
  obtain ps qs where acc: "acc = (ps, qs)" by (cases acc)
  show ?case
    unfolding acc using Cons by simp
qed

lemma attempt_no_valid_link:
  assumes "\<forall>link. \<not> isValidUrl (new_URL w) link baseDomain"
  shows "fst (attempt cfg w url baseDomain depth attempts s) = []"
proof (induction "RETRY_LIMIT cfg - attempts" arbitrary: attempts s)
  case 0
  then show ?case by (subst attempt.simps) simp
next
  case (Suc n)
  from Suc.hyps(2) have n: "n = RETRY_LIMIT cfg - (attempts + 1)" by arith
  show ?case
    using Suc.hyps(1)[OF n] each_link_no_valid_link[OF assms]
    by (subst attempt.simps) (simp add: Let_def split: outcome.splits)
qed

lemma crawlUrl_no_valid_link:
  assumes "\<forall>link. \<not> isValidUrl (new_URL w) link baseDomain"
  shows "fst (crawlUrl cfg w url baseDomain depth s) = []"
  using attempt_no_valid_link[OF assms] by (subst crawlUrl.simps) simp

text \<open>
  A host name holds no \<^verbatim>\<open>/\<close>; a base that resolves, such as
  \<^verbatim>\<open>https://example1.com\<close>, does.  So the host never contains the base, whatever
  the link: for a URL constructor with such host names no link is valid, and the crawl
  of a domain finds nothing.  \<open>http_URL\<close> is such a constructor.
\<close>

lemma slash_not_in_host:
  assumes "CHR ''/'' \<in> set baseDomain" and "CHR ''/'' \<notin> set host"
  shows "\<not> str_includes host baseDomain"
proof
  assume "str_includes host baseDomain"
  then have "sublist baseDomain host" by (simp add: str_includes_iff_sublist)
  then have "set baseDomain \<subseteq> set host" by (rule set_mono_sublist)
  with assms show False by blast
qed

lemma no_link_valid_for_slash_free_hosts:
  assumes "CHR ''/'' \<in> set baseDomain"
    and "\<forall>input p. ctor input baseDomain = Some p \<longrightarrow> CHR ''/'' \<notin> set (hostname p)"
  shows "\<not> isValidUrl ctor link baseDomain"
  using assms slash_not_in_host[OF assms(1)]
  by (auto simp: isValidUrl_def split: option.splits)

lemma parse_http_host: "parse_http s = Some p \<Longrightarrow> CHR ''/'' \<notin> set (hostname p)"
  by (auto simp: parse_http_def Let_def split: if_splits dest: set_takeWhileD)

lemma http_URL_host: "http_URL input base = Some p \<Longrightarrow> CHR ''/'' \<notin> set (hostname p)"
  by (auto simp: http_URL_def split: option.splits if_splits dest: parse_http_host)

lemma crawl_finds_nothing:
  assumes "CHR ''/'' \<in> set d"
    and "\<forall>input p. new_URL w input d = Some p \<longrightarrow> CHR ''/'' \<notin> set (hostname p)"
  shows "crawlDomain cfg w d = \<lparr>domain = d, productUrls = []\<rparr>"
proof -
  have "\<forall>link. \<not> isValidUrl (new_URL w) link d"
    using no_link_valid_for_slash_free_hosts[of d "new_URL w"] assms by blast
  then show ?thesis
    by (simp add: crawlDomain_def crawlDomain_run_def crawlUrl_no_valid_link)
qed

text \<open>
  With a constructor that \<^verbatim>\<open>isValidUrl\<close> accepts, the traversal follows the cycle of
  \<open>loop_site\<close> once: each page is inserted and requested once, the links back are
  skipped, and the two products are returned without duplicate.  The page \<^verbatim>\<open>/a\<close> is
  fetched at depth 1, the bound; the product it adds is one link further.
\<close>

lemma crawl_with_echo_URL:
  "crawlDomain_run (default_config\<lparr>MAX_DEPTH := 1\<rparr>)
     \<lparr>new_URL = echo_URL, axios_get = loop_site\<rparr> ''shop'' =
   ([''shop/item/1'', ''shop/item/2''],
    \<lparr>visitedUrls = {''shop'', ''shop/a''}, requests = 2,
     trace = [LogDomain ''shop'', Add ''shop'', Get ''shop'', Delay 1000,
              Add ''shop/a'', Get ''shop/a'']\<rparr>)"
  by (simp add: crawlDomain_run_def initial_state_def crawlUrl.simps attempt.simps
        default_config_def loop_site_def echo_URL_def isValidUrl_def isProductUrl_def
        regex_test_def set_add_def Let_def insert_commute)

section \<open>Claims about validation and classification\<close>

text \<open>
  Claim C2.  The claim: a link is valid if and only if it resolves against the base
  location to a URL whose host contains the host of the target domain, and a link that
  does not resolve is invalid rather than an error.  \<^verbatim>\<open>isValidUrl\<close> searches the host
  for the whole string \<^verbatim>\<open>baseDomain\<close>, scheme included, and not for its host: the
  link \<^verbatim>\<open>/product/42\<close> of the page \<^verbatim>\<open>https://example1.com\<close> resolves to
  \<^verbatim>\<open>https://example1.com/product/42\<close>, whose host \<^verbatim>\<open>example1.com\<close> is the target's
  host, and is rejected, since \<^verbatim>\<open>example1.com\<close> does not contain
  \<^verbatim>\<open>https://example1.com\<close>.
\<close>

theorem isValidUrl_rejects_link_on_target_host:
  "http_URL ''/product/42'' ''https://example1.com'' =
     Some \<lparr>href = ''https://example1.com/product/42'', protocol = ''https:'',
           hostname = ''example1.com'', pathname = ''/product/42''\<rparr> \<and>
   link_on_target_host http_URL ''/product/42'' ''https://example1.com'' \<and>
   \<not> isValidUrl http_URL ''/product/42'' ''https://example1.com''"
  by (simp add: isValidUrl_def link_on_target_host_def http_URL_def parse_http_def Let_def)

text \<open>
  Claim C6, as amended.  \<^verbatim>\<open>isProductUrl\<close> answers true if and only if one of the
  configured patterns occurs somewhere in the URL string it is given: the whole
  serialised URL, not its path.  The function reads its argument and the pattern list
  and nothing else, and returns only the answer.
\<close>

theorem isProductUrl_whole_url:
  "isProductUrl cfg url \<longleftrightarrow> (\<exists>pattern \<in> set (PRODUCT_PATTERNS cfg). sublist pattern url)"
  by (simp add: isProductUrl_def list_ex_iff regex_test_def str_includes_iff_sublist)

theorem isProductUrl_whole_url_witness:
  "\<exists>pattern \<in> set (PRODUCT_PATTERNS default_config).
     sublist pattern ''https://example1.com/item/7''"
  using isProductUrl_whole_url [of default_config "''https://example1.com/item/7''"]
  by (simp add: isProductUrl_def default_config_def regex_test_def)

text \<open>
  Claim C6 as stated fails: the path of \<^verbatim>\<open>https://example1.com/about?next=/product/7\<close>
  is \<^verbatim>\<open>/about\<close>, which matches no pattern, and \<^verbatim>\<open>isProductUrl\<close> answers true
  because of the query.
\<close>

theorem isProductUrl_path_counterexample:
  "\<not> (isProductUrl default_config ''https://example1.com/about?next=/product/7'' \<longleftrightarrow>
      classify_by_path default_config http_URL ''https://example1.com/about?next=/product/7'')"
  by (simp add: isProductUrl_def classify_by_path_def default_config_def regex_test_def
        http_URL_def parse_http_def Let_def)

section \<open>Claims about what a crawl finds\<close>

text \<open>
  Claim C8.  The claim: on the scenario's site (the root page links to
  \<^verbatim>\<open>/product/42\<close> and \<^verbatim>\<open>/about\<close>, which links to \<^verbatim>\<open>/product/99\<close>), a crawl with
  \<^verbatim>\<open>MAX_DEPTH = 2\<close> returns both product URLs.  The crawl returns no URL at all:
  \<^verbatim>\<open>isValidUrl\<close> rejects both links of the root page, so the only request is the one
  for the root page.
\<close>

theorem scenario_finds_nothing:
  "crawlDomain (default_config\<lparr>MAX_DEPTH := 2\<rparr>) scenario_world ''https://example1.com'' =
     \<lparr>domain = ''https://example1.com'', productUrls = []\<rparr> \<and>
   snd (crawlDomain_run (default_config\<lparr>MAX_DEPTH := 2\<rparr>) scenario_world
          ''https://example1.com'') =
     \<lparr>visitedUrls = {''https://example1.com''}, requests = 1,
      trace = [LogDomain ''https://example1.com'', Add ''https://example1.com'',
               Get ''https://example1.com'']\<rparr>"
  by (simp add: crawlDomain_def crawlDomain_run_def initial_state_def crawlUrl.simps attempt.simps
        default_config_def scenario_world_def scenario_site_def isValidUrl_def http_URL_def
        parse_http_def Let_def)

text \<open>
  Claim C1.  The claim: a product URL first reachable at depth \<^verbatim>\<open>maxDepth + 1\<close> is not
  in the result, and one reachable at depth \<^verbatim>\<open>maxDepth\<close> is.  With \<^verbatim>\<open>MAX_DEPTH = 1\<close>
  the root page of \<^verbatim>\<open>https://shop.test\<close> is fetched at depth 0 and links to
  \<^verbatim>\<open>/item/1\<close>, a product URL on the same host at depth 1; the result is empty.
\<close>

theorem product_at_max_depth_missed:
  "http_URL ''/item/1'' ''https://shop.test'' =
     Some \<lparr>href = ''https://shop.test/item/1'', protocol = ''https:'',
           hostname = ''shop.test'', pathname = ''/item/1''\<rparr> \<and>
   isProductUrl (default_config\<lparr>MAX_DEPTH := 1\<rparr>) ''https://shop.test/item/1'' \<and>
   crawlDomain (default_config\<lparr>MAX_DEPTH := 1\<rparr>) shop_world ''https://shop.test'' =
     \<lparr>domain = ''https://shop.test'', productUrls = []\<rparr>"
  by (simp add: crawlDomain_def crawlDomain_run_def initial_state_def crawlUrl.simps attempt.simps
        default_config_def shop_world_def shop_site_def isValidUrl_def http_URL_def
        parse_http_def Let_def isProductUrl_def regex_test_def)

section \<open>Claims about failures\<close>

text \<open>
  Claim C4.  When every one of the \<^verbatim>\<open>RETRY_LIMIT\<close> requests that a crawl of \<open>url\<close> can
  make is answered 429 (and the call passes the guard: \<open>url\<close> is new and the depth is
  within the bound), the call inserts \<open>url\<close>, then makes exactly \<^verbatim>\<open>RETRY_LIMIT\<close>
  requests, each followed by a log line and one wait of 3000 ms, and returns the empty
  array; nothing is thrown.  And one pass of the loop whose request is answered 429
  is the request, the log line, one wait of 3000 ms, and the loop again with the
  counter raised by one.  The call that \<^verbatim>\<open>crawlDomain\<close> makes always passes the guard:
  a domain whose root page is answered 429 at each of the first \<^verbatim>\<open>RETRY_LIMIT\<close>
  requests is crawled with exactly this history.
\<close>

theorem rate_limited_page_exhausts_retries:
  assumes "depth \<le> MAX_DEPTH cfg"
    and "url \<notin> visitedUrls s"
    and "\<forall>k < RETRY_LIMIT cfg. axios_get w (requests s + k) url = RateLimited"
  shows "\<exists>evs. crawlUrl cfg w url baseDomain depth s =
             ([], s\<lparr>visitedUrls := insert url (visitedUrls s),
                     requests := requests s + RETRY_LIMIT cfg,
                     trace := trace s @ Add url # evs\<rparr>) \<and>
           evs = concat (replicate (RETRY_LIMIT cfg) [Get url, LogRateLimit url, Delay 3000]) \<and>
           count_list evs (Get url) = RETRY_LIMIT cfg \<and>
           count_list evs (Delay 3000) = RETRY_LIMIT cfg \<and>
           (\<forall>attempts s1. attempts < RETRY_LIMIT cfg \<and>
                axios_get w (requests s1) url = RateLimited \<longrightarrow>
              attempt cfg w url baseDomain depth attempts s1 =
              attempt cfg w url baseDomain depth (attempts + 1)
                (s1\<lparr>requests := Suc (requests s1),
                     trace := trace s1 @ [Get url, LogRateLimit url, Delay 3000]\<rparr>)) \<and>
           (\<forall>d. (\<forall>k < RETRY_LIMIT cfg. axios_get w k d = RateLimited) \<longrightarrow>
              crawlDomain_run cfg w d =
                ([], \<lparr>visitedUrls = {d}, requests = RETRY_LIMIT cfg,
                      trace = LogDomain d # Add d #
                        concat (replicate (RETRY_LIMIT cfg)
                                  [Get d, LogRateLimit d, Delay 3000])\<rparr>))"
proof -
  let ?s1 = "s\<lparr>visitedUrls := insert url (visitedUrls s), trace := trace s @ [Add url]\<rparr>"
  let ?evs = "concat (replicate (RETRY_LIMIT cfg) [Get url, LogRateLimit url, Delay 3000])"
  have "crawlUrl cfg w url baseDomain depth s = attempt cfg w url baseDomain depth 0 ?s1"
    using assms(1,2) by (subst crawlUrl.simps) simp
  also have "\<dots> = ([], ?s1\<lparr>requests := requests ?s1 + (RETRY_LIMIT cfg - 0),
                            trace := trace ?s1 @ concat (replicate (RETRY_LIMIT cfg - 0)
                                        [Get url, LogRateLimit url, Delay 3000])\<rparr>)"
    using assms(3) by (intro attempt_all_rate_limited) simp
  finally have run: "crawlUrl cfg w url baseDomain depth s =
      ([], s\<lparr>visitedUrls := insert url (visitedUrls s),
              requests := requests s + RETRY_LIMIT cfg,
              trace := trace s @ Add url # ?evs\<rparr>)"
    by simp
  have gets: "count_list ?evs (Get url) = RETRY_LIMIT cfg"
    by (simp add: count_concat_replicate)
  have waits: "count_list ?evs (Delay 3000) = RETRY_LIMIT cfg"
    by (simp add: count_concat_replicate)
  have step: "\<forall>attempts s1. attempts < RETRY_LIMIT cfg \<and>
                axios_get w (requests s1) url = RateLimited \<longrightarrow>
              attempt cfg w url baseDomain depth attempts s1 =
              attempt cfg w url baseDomain depth (attempts + 1)
                (s1\<lparr>requests := Suc (requests s1),
                     trace := trace s1 @ [Get url, LogRateLimit url, Delay 3000]\<rparr>)"
  proof (intro allI impI)
    fix attempts and s1 :: crawl_state
    assume "attempts < RETRY_LIMIT cfg \<and> axios_get w (requests s1) url = RateLimited"
    then show "attempt cfg w url baseDomain depth attempts s1 =
              attempt cfg w url baseDomain depth (attempts + 1)
                (s1\<lparr>requests := Suc (requests s1),
                     trace := trace s1 @ [Get url, LogRateLimit url, Delay 3000]\<rparr>)"
      by (subst attempt.simps) (simp add: Let_def)
  qed
  have root: "\<forall>d. (\<forall>k < RETRY_LIMIT cfg. axios_get w k d = RateLimited) \<longrightarrow>
              crawlDomain_run cfg w d =
                ([], \<lparr>visitedUrls = {d}, requests = RETRY_LIMIT cfg,
                      trace = LogDomain d # Add d #
                        concat (replicate (RETRY_LIMIT cfg)
                                  [Get d, LogRateLimit d, Delay 3000])\<rparr>)"
  proof (intro allI impI)
    fix d
    let ?s0 = "\<lparr>visitedUrls = {d}, requests = 0, trace = [LogDomain d, Add d]\<rparr>"
    assume "\<forall>k < RETRY_LIMIT cfg. axios_get w k d = RateLimited"
    then have "attempt cfg w d d 0 0 ?s0 =
                 ([], ?s0\<lparr>requests := requests ?s0 + (RETRY_LIMIT cfg - 0),
                           trace := trace ?s0 @ concat (replicate (RETRY_LIMIT cfg - 0)
                                       [Get d, LogRateLimit d, Delay 3000])\<rparr>)"
      by (intro attempt_all_rate_limited) simp
    then show "crawlDomain_run cfg w d =
                ([], \<lparr>visitedUrls = {d}, requests = RETRY_LIMIT cfg,
                      trace = LogDomain d # Add d #
                        concat (replicate (RETRY_LIMIT cfg)
                                  [Get d, LogRateLimit d, Delay 3000])\<rparr>)"
      by (simp add: crawlDomain_run_def initial_state_def crawlUrl.simps)
  qed
  from run gets waits step root show ?thesis by blast
qed

theorem rate_limited_page_exhausts_retries_witness:
  "fst (crawlUrl default_config (constant_world RateLimited) ''https://example1.com''
      ''https://example1.com'' 0 (initial_state ''https://example1.com'')) = [] \<and>
   trace (snd (crawlUrl default_config (constant_world RateLimited) ''https://example1.com''
      ''https://example1.com'' 0 (initial_state ''https://example1.com''))) =
     [LogDomain ''https://example1.com'', Add ''https://example1.com'',
      Get ''https://example1.com'', LogRateLimit ''https://example1.com'', Delay 3000,
      Get ''https://example1.com'', LogRateLimit ''https://example1.com'', Delay 3000,
      Get ''https://example1.com'', LogRateLimit ''https://example1.com'', Delay 3000]"
proof -
  have d: "(0::nat) \<le> MAX_DEPTH default_config" by simp
  have v: "''https://example1.com'' \<notin> visitedUrls (initial_state ''https://example1.com'')"
    by (simp add: initial_state_def)
  have r: "\<forall>k < RETRY_LIMIT default_config.
             axios_get (constant_world RateLimited)
               (requests (initial_state ''https://example1.com'') + k) ''https://example1.com''
             = RateLimited"
    by (simp add: constant_world_def)
  show ?thesis
    using rate_limited_page_exhausts_retries [OF d v r, of "''https://example1.com''"]
    by (auto simp: default_config_def initial_state_def numeral_3_eq_3)
qed

text \<open>
  Claim C5.  When the request for \<open>url\<close> fails with anything but a 429, the crawl of
  \<open>url\<close> makes that one request, logs the failure and returns the empty array at once:
  no wait, no second request, and no exception, since the result is an ordinary value.
  The same holds at any pass of the retry loop.  The loop over the children of the
  parent page then goes on with the next child, its product URLs unchanged.  In
  particular a domain whose root page cannot be fetched yields the Domain Result with
  that domain and an empty \<^verbatim>\<open>productUrls\<close>.
\<close>

theorem terminal_failure_absorbed:
  assumes failed: "axios_get w (requests s) url = Failed"
    and fresh: "url \<notin> visitedUrls s"
    and depth: "depth \<le> MAX_DEPTH cfg"
    and tries: "0 < RETRY_LIMIT cfg"
  shows "crawlUrl cfg w url baseDomain depth s =
           ([], s\<lparr>visitedUrls := insert url (visitedUrls s),
                   requests := Suc (requests s),
                   trace := trace s @ [Add url, Get url, LogFailure url]\<rparr>) \<and>
         (\<forall>attempts < RETRY_LIMIT cfg.
            attempt cfg w url baseDomain depth attempts s =
              ([], s\<lparr>requests := Suc (requests s),
                      trace := trace s @ [Get url, LogFailure url]\<rparr>)) \<and>
         (\<forall>rest found.
            crawl_internal cfg w (url # rest) baseDomain depth found s =
            crawl_internal cfg w rest baseDomain depth found
              (s\<lparr>visitedUrls := insert url (visitedUrls s),
                   requests := Suc (requests s),
                   trace := trace s @ [Delay (DELAY_BETWEEN_REQUESTS cfg),
                                       Add url, Get url, LogFailure url]\<rparr>)) \<and>
         (\<forall>d. axios_get w 0 d = Failed \<longrightarrow>
            crawlDomain cfg w d = \<lparr>domain = d, productUrls = []\<rparr>)"
proof (intro conjI allI impI)
  show "crawlUrl cfg w url baseDomain depth s =
           ([], s\<lparr>visitedUrls := insert url (visitedUrls s),
                   requests := Suc (requests s),
                   trace := trace s @ [Add url, Get url, LogFailure url]\<rparr>)"
    using assms by (simp add: crawlUrl.simps attempt.simps Let_def)
next
  fix attempts assume "attempts < RETRY_LIMIT cfg"
  then show "attempt cfg w url baseDomain depth attempts s =
              ([], s\<lparr>requests := Suc (requests s),
                      trace := trace s @ [Get url, LogFailure url]\<rparr>)"
    using failed by (simp add: attempt.simps Let_def)
next
  fix rest found
  show "crawl_internal cfg w (url # rest) baseDomain depth found s =
            crawl_internal cfg w rest baseDomain depth found
              (s\<lparr>visitedUrls := insert url (visitedUrls s),
                   requests := Suc (requests s),
                   trace := trace s @ [Delay (DELAY_BETWEEN_REQUESTS cfg),
                                       Add url, Get url, LogFailure url]\<rparr>)"
    using assms by (simp add: crawlUrl.simps attempt.simps Let_def)
next
  fix d assume "axios_get w 0 d = Failed"
  then show "crawlDomain cfg w d = \<lparr>domain = d, productUrls = []\<rparr>"
    by (simp add: crawlDomain_def crawlDomain_run_def initial_state_def
          crawlUrl.simps attempt.simps Let_def)
qed

theorem terminal_failure_absorbed_witness:
  "crawlUrl default_config (constant_world Failed) ''https://example1.com''
     ''https://example1.com'' 0 (initial_state ''https://example1.com'') =
     ([], \<lparr>visitedUrls = {''https://example1.com''}, requests = 1,
           trace = [LogDomain ''https://example1.com'', Add ''https://example1.com'',
                    Get ''https://example1.com'', LogFailure ''https://example1.com'']\<rparr>) \<and>
   crawlDomain default_config (constant_world Failed) ''https://example1.com'' =
     \<lparr>domain = ''https://example1.com'', productUrls = []\<rparr>"
proof -
  have f: "axios_get (constant_world Failed)
             (requests (initial_state ''https://example1.com'')) ''https://example1.com'' = Failed"
    by (simp add: constant_world_def)
  have v: "''https://example1.com'' \<notin> visitedUrls (initial_state ''https://example1.com'')"
    by (simp add: initial_state_def)
  have d: "(0::nat) \<le> MAX_DEPTH default_config" by simp
  have r: "0 < RETRY_LIMIT default_config" by (simp add: default_config_def)
  have f0: "axios_get (constant_world Failed) 0 ''https://example1.com'' = Failed"
    by (simp add: constant_world_def)
  show ?thesis
    using terminal_failure_absorbed [OF f v d r, of "''https://example1.com''"] f0
    by (simp add: initial_state_def)
qed

section \<open>Claims about the visited set\<close>




text \<open>
  Claim C7.  No call of the crawl removes a URL from \<^verbatim>\<open>visitedUrls\<close>.  In the history
  of a whole domain crawl, the set holds exactly the URLs inserted; no URL is inserted
  twice, so none enters the fetch with its retry loop twice; every request for a URL
  comes after the insertion of that URL; and a URL is requested again only as a retry
  within that one fetch: each earlier request for it was answered 429, it is requested
  at most \<^verbatim>\<open>RETRY_LIMIT\<close> times in all, and at most one request for it gets an answer
  other than 429.
\<close>

theorem visited_grows_and_no_url_is_fetched_twice:
  "visitedUrls s \<subseteq> visitedUrls (snd (crawlUrl cfg w url baseDomain depth s)) \<and>
   visitedUrls s \<subseteq> visitedUrls (snd (attempt cfg w url baseDomain depth attempts s)) \<and>
   visitedUrls s \<subseteq>
     visitedUrls (snd (crawl_internal cfg w internalUrls baseDomain depth found s)) \<and>
   (let final = snd (crawlDomain_run cfg w d); tr = trace final in
      visitedUrls final = set (added tr) \<and>
      distinct (added tr) \<and>
      (\<forall>pre u post. tr = pre @ Get u # post \<longrightarrow> Add u \<in> set pre) \<and>
      (\<forall>u. count_list (got tr) u \<le> RETRY_LIMIT cfg) \<and>
      (\<forall>i j. i < j \<and> j < length (got tr) \<and> got tr ! i = got tr ! j \<longrightarrow>
         axios_get w i (got tr ! i) = RateLimited) \<and>
      (\<forall>i j. i < length (got tr) \<and> j < length (got tr) \<and> got tr ! i = got tr ! j \<and>
         axios_get w i (got tr ! i) \<noteq> RateLimited \<and>
         axios_get w j (got tr ! j) \<noteq> RateLimited \<longrightarrow> i = j))"
proof -
  let ?final = "snd (crawlDomain_run cfg w d)"
  have "crawl_inv cfg w ?final"
    unfolding crawlDomain_run_def by (intro crawl_inv_step(1) crawl_inv_initial)
  then have v: "visitedUrls ?final = set (added (trace ?final))"
    and dist: "distinct (added (trace ?final))"
    and guarded: "added_before_get {} (trace ?final)"
    and bound: "\<forall>u. count_list (got (trace ?final)) u \<le> RETRY_LIMIT cfg"
    and retried: "retried_only_after_429 w (got (trace ?final))"
    by (simp_all add: crawl_inv_def)
  have before: "\<forall>pre u post. trace ?final = pre @ Get u # post \<longrightarrow> Add u \<in> set pre"
    using added_before_get_split[OF guarded] by blast
  have again: "\<forall>i j. i < j \<and> j < length (got (trace ?final)) \<and>
                 got (trace ?final) ! i = got (trace ?final) ! j \<longrightarrow>
                 axios_get w i (got (trace ?final) ! i) = RateLimited"
    using retried by (simp add: retried_only_after_429_def)
  have once: "\<forall>i j. i < length (got (trace ?final)) \<and> j < length (got (trace ?final)) \<and>
                 got (trace ?final) ! i = got (trace ?final) ! j \<and>
                 axios_get w i (got (trace ?final) ! i) \<noteq> RateLimited \<and>
                 axios_get w j (got (trace ?final) ! j) \<noteq> RateLimited \<longrightarrow> i = j"
  proof (intro allI impI)
    fix i j
    assume a: "i < length (got (trace ?final)) \<and> j < length (got (trace ?final)) \<and>
                 got (trace ?final) ! i = got (trace ?final) ! j \<and>
                 axios_get w i (got (trace ?final) ! i) \<noteq> RateLimited \<and>
                 axios_get w j (got (trace ?final) ! j) \<noteq> RateLimited"
    have "\<not> i < j"
    proof
      assume "i < j"
      with a have prem: "i < j \<and> j < length (got (trace ?final)) \<and>
                   got (trace ?final) ! i = got (trace ?final) ! j" by simp
      have "axios_get w i (got (trace ?final) ! i) = RateLimited"
        by (rule again[rule_format, OF prem])
      moreover from a have "axios_get w i (got (trace ?final) ! i) \<noteq> RateLimited"
        by (elim conjE)
      ultimately show False by (rule notE[rotated])
    qed
    moreover have "\<not> j < i"
    proof
      assume "j < i"
      with a have prem: "j < i \<and> i < length (got (trace ?final)) \<and>
                   got (trace ?final) ! j = got (trace ?final) ! i" by simp
      have "axios_get w j (got (trace ?final) ! j) = RateLimited"
        by (rule again[rule_format, OF prem])
      moreover from a have "axios_get w j (got (trace ?final) ! j) \<noteq> RateLimited"
        by (elim conjE)
      ultimately show False by (rule notE[rotated])
    qed
    ultimately show "i = j" by arith
  qed
  show ?thesis
    unfolding Let_def
    using visited_mono(1)[of s cfg w url baseDomain depth]
      visited_mono(2)[of s cfg w url baseDomain depth attempts]
      visited_mono(3)[of s cfg w internalUrls baseDomain depth found]
      v dist before bound again once
    by (intro conjI)
qed

theorem visited_grows_and_no_url_is_fetched_twice_witness:
  "trace (snd (crawlDomain_run default_config busy_world ''https://example1.com'')) =
     [LogDomain ''https://example1.com'', Add ''https://example1.com''] @
     Get ''https://example1.com'' #
     [LogRateLimit ''https://example1.com'', Delay 3000, Get ''https://example1.com''] \<and>
   Add ''https://example1.com'' \<in>
     set [LogDomain ''https://example1.com'', Add ''https://example1.com''] \<and>
   visitedUrls (initial_state ''https://example1.com'') \<subseteq>
     visitedUrls (snd (crawlDomain_run default_config busy_world ''https://example1.com'')) \<and>
   axios_get busy_world 0 ''https://example1.com'' = RateLimited"
proof -
  let ?d = "''https://example1.com''"
  let ?final = "snd (crawlDomain_run default_config busy_world ?d)"
  have tr: "trace ?final =
     [LogDomain ?d, Add ?d] @ Get ?d # [LogRateLimit ?d, Delay 3000, Get ?d]"
    by (simp add: crawlDomain_run_def initial_state_def crawlUrl.simps attempt.simps
          default_config_def busy_world_def scenario_site_def isValidUrl_def http_URL_def
          parse_http_def Let_def)
  note all = visited_grows_and_no_url_is_fetched_twice
    [of "initial_state ?d" default_config busy_world ?d ?d 0 0 "[]" "[]" ?d, unfolded Let_def]
  from all have grows: "visitedUrls (initial_state ?d) \<subseteq> visitedUrls ?final"
    unfolding crawlDomain_run_def by (rule conjunct1)
  note history = all[THEN conjunct2, THEN conjunct2, THEN conjunct2]
  from history
  have "\<forall>pre u post. trace ?final = pre @ Get u # post \<longrightarrow> Add u \<in> set pre"
    by (elim conjE)
  from this[rule_format, OF tr] have before: "Add ?d \<in> set [LogDomain ?d, Add ?d]" .
  from history
  have "\<forall>i j. i < j \<and> j < length (got (trace ?final)) \<and>
          got (trace ?final) ! i = got (trace ?final) ! j \<longrightarrow>
          axios_get busy_world i (got (trace ?final) ! i) = RateLimited"
    by (elim conjE)
  from this[rule_format, of 0 1] have retry: "axios_get busy_world 0 ?d = RateLimited"
    unfolding tr by simp
  from tr before grows retry show ?thesis by (intro conjI)
qed

section \<open>Termination\<close>

text \<open>
  Claim C3.  The crawl terminates on every site, cyclic or not, and whatever the
  network answers: every argument of \<open>crawlUrl\<close>, of its retry loop and of its loop over
  the children lies in the domain of the recursion, because each recursive call lowers
  \<open>crawl_rank\<close> in a well-founded order.  The rank counts the depths still allowed, the
  attempts still allowed and the children still to expand; the test on
  \<^verbatim>\<open>visitedUrls\<close> only ends a call earlier.
\<close>

theorem crawl_terminates:
  "All crawlUrl_attempt_crawl_internal_dom \<and>
   wf (inv_image (less_than <*lex*> less_than <*lex*> less_than) crawl_rank) \<and>
   (\<forall>x y. crawlUrl_attempt_crawl_internal_rel x y \<longrightarrow>
      (x, y) \<in> inv_image (less_than <*lex*> less_than <*lex*> less_than) crawl_rank)"
proof (intro conjI)
  show "All crawlUrl_attempt_crawl_internal_dom"
    by (relation "inv_image (less_than <*lex*> less_than <*lex*> less_than) crawl_rank")
       (auto simp: crawl_rank_def)
next
  show "wf (inv_image (less_than <*lex*> less_than <*lex*> less_than) crawl_rank)"
    by (intro wf_inv_image wf_lex_prod wf_less_than)
next
  show "\<forall>x y. crawlUrl_attempt_crawl_internal_rel x y \<longrightarrow>
      (x, y) \<in> inv_image (less_than <*lex*> less_than <*lex*> less_than) crawl_rank"
  proof (intro allI impI)
    fix x y
    assume "crawlUrl_attempt_crawl_internal_rel x y"
    then show "(x, y) \<in> inv_image (less_than <*lex*> less_than <*lex*> less_than) crawl_rank"
      by (cases rule: crawlUrl_attempt_crawl_internal_rel.cases) (auto simp: crawl_rank_def)
  qed
qed

theorem crawl_terminates_witness:
  "(Inr (Inl (default_config, constant_world Failed, ''https://example1.com'',
              ''https://example1.com'', 0, 0,
              (initial_state ''https://example1.com'')
                \<lparr>visitedUrls := insert ''https://example1.com''
                                   (visitedUrls (initial_state ''https://example1.com'')),
                 trace := trace (initial_state ''https://example1.com'') @
                          [Add ''https://example1.com'']\<rparr>)),
    Inl (default_config, constant_world Failed, ''https://example1.com'',
         ''https://example1.com'', 0, initial_state ''https://example1.com''))
   \<in> inv_image (less_than <*lex*> less_than <*lex*> less_than) crawl_rank"
proof -
  have "\<not> (MAX_DEPTH default_config < 0 \<or>
           ''https://example1.com'' \<in> visitedUrls (initial_state ''https://example1.com''))"
    by (simp add: initial_state_def)
  from crawlUrl_attempt_crawl_internal_rel.intros(1) [OF this]
  show ?thesis
    using crawl_terminates by blast
qed

section \<open>Crawling a list of domains\<close>

lemma batches_concat: "0 < n \<Longrightarrow> concat (batches n xs) = xs"
proof (induction n xs rule: batches.induct)
  case (1 n xs)
  then show ?case by (subst batches.simps) auto
qed

lemma batches_sizes: "b \<in> set (batches n xs) \<Longrightarrow> b \<noteq> [] \<and> length b \<le> n"
proof (induction n xs rule: batches.induct)
  case (1 n xs)
  from "1.prems" have ne: "\<not> (n = 0 \<or> xs = [])"
    by (subst (asm) batches.simps) (auto split: if_splits)
  from "1.prems" ne have "b = take n xs \<or> b \<in> set (batches n (drop n xs))"
    by (subst (asm) batches.simps) simp
  then show ?case
    using "1.IH"[OF ne] ne by auto
qed

lemma batches_full: "Suc k < length (batches n xs) \<Longrightarrow> length (batches n xs ! k) = n"
proof (induction n xs arbitrary: k rule: batches.induct)
  case (1 n xs)
  from "1.prems" have ne: "\<not> (n = 0 \<or> xs = [])"
    by (subst (asm) batches.simps) (auto split: if_splits)
  have unfold: "batches n xs = take n xs # batches n (drop n xs)"
    using ne by (subst batches.simps) simp
  show ?case
  proof (cases k)
    case 0
    from "1.prems" unfold have "batches n (drop n xs) \<noteq> []" by auto
    then have "drop n xs \<noteq> []" by (subst (asm) batches.simps) (auto split: if_splits)
    then show ?thesis using 0 unfold by simp
  next
    case (Suc k')
    with "1.prems" unfold have "Suc k' < length (batches n (drop n xs))" by simp
    from "1.IH"[OF ne this] show ?thesis using Suc unfold by simp
  qed
qed

text \<open>Histories of batches.\<close>

lemma batch_by_batch_started:
  "batch_by_batch n running (map TaskStarted b @ h) = batch_by_batch n (running @ b) h"
  by (induction b arbitrary: running) simp_all

lemma batch_by_batch_history:
  "\<forall>b \<in> set bs. b \<noteq> [] \<and> length b \<le> n \<Longrightarrow> batch_by_batch n [] (batch_history bs)"
  by (induction bs) (simp_all add: batch_history_def batch_by_batch_started)

lemma settled_started: "settled (map TaskStarted b @ h) = settled h"
  by (induction b) simp_all

lemma settled_batch_history: "settled (batch_history bs) = bs"
  by (induction bs) (simp_all add: batch_history_def settled_started)

lemma batch_history_append: "batch_history (bs @ cs) = batch_history bs @ batch_history cs"
  by (simp add: batch_history_def)

text \<open>
  From index \<open>i\<close> on, the loop takes the batches of the rest of the list: it appends
  their results to the results and their history to the history.
\<close>

lemma crawlDomains_loop_batches:
  assumes "0 < PARALLEL_REQUESTS cfg"
  shows "crawlDomains_loop cfg w domains i results history =
         Some (results @ concat (map (map (crawlDomain cfg w))
                                   (batches (PARALLEL_REQUESTS cfg) (drop i domains))),
               history @ batch_history (batches (PARALLEL_REQUESTS cfg) (drop i domains)))"
proof (induction "length domains - i" arbitrary: i results history rule: less_induct)
  case less
  let ?P = "PARALLEL_REQUESTS cfg"
  show ?case
  proof (cases "i < length domains")
    case False
    then have "batches ?P (drop i domains) = []"
      by (subst batches.simps) simp
    with False show ?thesis
      by (subst crawlDomains_loop.simps) (simp add: batch_history_def)
  next
    case True
    let ?batch = "slice domains i (i + ?P)"
    from True have "length domains - (i + ?P) < length domains - i"
      using assms by arith
    note next_batches = less[OF this]
    have cut: "batches ?P (drop i domains) = ?batch # batches ?P (drop (i + ?P) domains)"
      using True assms by (subst batches.simps) (simp add: add.commute slice_def)
    have "crawlDomains_loop cfg w domains i results history =
          crawlDomains_loop cfg w domains (i + ?P)
            (results @ map (crawlDomain cfg w) ?batch)
            (history @ map TaskStarted ?batch @ [BatchSettled ?batch])"
      using True by (subst crawlDomains_loop.simps) simp
    then show ?thesis
      unfolding next_batches cut by (simp add: batch_history_def)
  qed
qed

text \<open>With a step of \<open>0\<close> and a domain left to crawl, the loop does not return.\<close>

lemma crawlDomains_loop_stuck:
  assumes "crawlDomains_loop cfg w domains i results history = Some r"
  shows "\<not> (PARALLEL_REQUESTS cfg = 0 \<and> i < length domains)"
proof (rule crawlDomains_loop.raw_induct
         [where P = "\<lambda>cfg w domains i results history r.
                       \<not> (PARALLEL_REQUESTS cfg = 0 \<and> i < length domains)"])
  show "crawlDomains_loop cfg w domains i results history = Some r"
    by (rule assms)
next
  fix loop :: "config \<Rightarrow> world \<Rightarrow> string list \<Rightarrow> nat \<Rightarrow> domain_result list \<Rightarrow>
               orchestration list \<Rightarrow> (domain_result list \<times> orchestration list) option"
  fix cfg w domains i results history r
  assume IH: "\<And>cfg w domains i results history y.
                loop cfg w domains i results history = Some y \<Longrightarrow>
                \<not> (PARALLEL_REQUESTS cfg = 0 \<and> i < length domains)"
  assume pass: "(if i < length domains
      then loop cfg w domains (i + PARALLEL_REQUESTS cfg)
            (results @ map (crawlDomain cfg w) (slice domains i (i + PARALLEL_REQUESTS cfg)))
            (history @ map TaskStarted (slice domains i (i + PARALLEL_REQUESTS cfg)) @
             [BatchSettled (slice domains i (i + PARALLEL_REQUESTS cfg))])
      else Some (results, history)) = Some r"
  show "\<not> (PARALLEL_REQUESTS cfg = 0 \<and> i < length domains)"
  proof
    assume stuck: "PARALLEL_REQUESTS cfg = 0 \<and> i < length domains"
    with pass have "loop cfg w domains i
            (results @ map (crawlDomain cfg w) (slice domains i i))
            (history @ map TaskStarted (slice domains i i) @
             [BatchSettled (slice domains i i)]) = Some r"
      by simp
    from IH[OF this] stuck show False by simp
  qed
qed

lemma crawlDomains_loop_never_returns:
  "PARALLEL_REQUESTS cfg = 0 \<Longrightarrow> i < length domains \<Longrightarrow>
   crawlDomains_loop cfg w domains i results history = None"
  using crawlDomains_loop_stuck[of cfg w domains i results history]
  by (cases "crawlDomains_loop cfg w domains i results history") auto

lemma domain_crawlDomain: "domain (crawlDomain cfg w d) = d"
  by (simp add: crawlDomain_def)

text \<open>
  Claim C9, as amended.  With a positive \<^verbatim>\<open>PARALLEL_REQUESTS\<close>, \<^verbatim>\<open>crawlDomains\<close>
  returns.  The history of its run is that of the batches taken one after the other:
  the tasks of a batch are started, then all of them settle, and only then is a task
  of the next batch started.  The batches that settle cut the domain list into
  consecutive pieces: each has \<^verbatim>\<open>PARALLEL_REQUESTS\<close> domains, except the last, which
  holds the domains that remain (at least one, at most \<^verbatim>\<open>PARALLEL_REQUESTS\<close>).  The result
  is the results of the batches one after the other, those of a batch in the order of
  its domains: one entry for each input domain, the entry at position \<open>i\<close> carrying the
  domain at position \<open>i\<close>.
\<close>

theorem crawlDomains_batch_order:
  assumes "0 < PARALLEL_REQUESTS cfg"
  shows "\<exists>results history.
           crawlDomains_run cfg w domains = Some (results, history) \<and>
           crawlDomains cfg w domains = Some results \<and>
           history = batch_history (batches (PARALLEL_REQUESTS cfg) domains) \<and>
           settled history = batches (PARALLEL_REQUESTS cfg) domains \<and>
           batch_by_batch (PARALLEL_REQUESTS cfg) [] history \<and>
           results = concat (map (map (crawlDomain cfg w)) (settled history)) \<and>
           concat (settled history) = domains \<and>
           (\<forall>b \<in> set (settled history). b \<noteq> [] \<and> length b \<le> PARALLEL_REQUESTS cfg) \<and>
           (\<forall>k. Suc k < length (settled history) \<longrightarrow>
              length (settled history ! k) = PARALLEL_REQUESTS cfg) \<and>
           length results = length domains \<and>
           (\<forall>i < length domains. domain (results ! i) = domains ! i)"
proof -
  let ?P = "PARALLEL_REQUESTS cfg"
  let ?bs = "batches ?P domains"
  let ?results = "concat (map (map (crawlDomain cfg w)) ?bs)"
  let ?history = "batch_history ?bs"
  have run: "crawlDomains_run cfg w domains = Some (?results, ?history)"
    using crawlDomains_loop_batches[OF assms, of w domains 0 "[]" "[]"]
    by (simp add: crawlDomains_run_def)
  then have ret: "crawlDomains cfg w domains = Some ?results"
    by (simp add: crawlDomains_def)
  have taken: "settled ?history = ?bs"
    by (rule settled_batch_history)
  have whole: "concat ?bs = domains"
    using assms by (rule batches_concat)
  have sizes: "\<forall>b \<in> set ?bs. b \<noteq> [] \<and> length b \<le> ?P"
    using batches_sizes by blast
  have full: "\<forall>k. Suc k < length ?bs \<longrightarrow> length (?bs ! k) = ?P"
    using batches_full by blast
  have ordered: "batch_by_batch ?P [] ?history"
    using sizes by (rule batch_by_batch_history)
  have "map domain ?results = concat (map (map (domain \<circ> crawlDomain cfg w)) ?bs)"
    by (simp add: map_concat)
  also have "domain \<circ> crawlDomain cfg w = id"
    by (rule ext) (simp add: domain_crawlDomain)
  finally have domains: "map domain ?results = domains"
    using whole by simp
  from domains have len: "length ?results = length domains"
    by (metis length_map)
  have nth: "\<forall>i < length domains. domain (?results ! i) = domains ! i"
    using domains len by (metis nth_map)
  show ?thesis
  proof (intro exI conjI)
    show "crawlDomains_run cfg w domains = Some (?results, ?history)" by (rule run)
    show "crawlDomains cfg w domains = Some ?results" by (rule ret)
    show "?history = batch_history ?bs" by (rule refl)
    show "settled ?history = ?bs" by (rule taken)
    show "batch_by_batch ?P [] ?history" by (rule ordered)
    show "?results = concat (map (map (crawlDomain cfg w)) (settled ?history))"
      unfolding taken by (rule refl)
    show "concat (settled ?history) = domains" unfolding taken by (rule whole)
    show "\<forall>b \<in> set (settled ?history). b \<noteq> [] \<and> length b \<le> ?P"
      unfolding taken by (rule sizes)
    show "\<forall>k. Suc k < length (settled ?history) \<longrightarrow> length (settled ?history ! k) = ?P"
      unfolding taken by (rule full)
    show "length ?results = length domains" by (rule len)
    show "\<forall>i < length domains. domain (?results ! i) = domains ! i" by (rule nth)
  qed
qed

theorem crawlDomains_batch_order_witness:
  "crawlDomains_run default_config (constant_world Failed)
     [''https://a.test'', ''https://b.test'', ''https://c.test'', ''https://d.test'',
      ''https://e.test'', ''https://f.test'', ''https://g.test''] =
   Some ([\<lparr>domain = ''https://a.test'', productUrls = []\<rparr>,
          \<lparr>domain = ''https://b.test'', productUrls = []\<rparr>,
          \<lparr>domain = ''https://c.test'', productUrls = []\<rparr>,
          \<lparr>domain = ''https://d.test'', productUrls = []\<rparr>,
          \<lparr>domain = ''https://e.test'', productUrls = []\<rparr>,
          \<lparr>domain = ''https://f.test'', productUrls = []\<rparr>,
          \<lparr>domain = ''https://g.test'', productUrls = []\<rparr>],
         [TaskStarted ''https://a.test'', TaskStarted ''https://b.test'',
          TaskStarted ''https://c.test'', TaskStarted ''https://d.test'',
          TaskStarted ''https://e.test'',
          BatchSettled [''https://a.test'', ''https://b.test'', ''https://c.test'',
                        ''https://d.test'', ''https://e.test''],
          TaskStarted ''https://f.test'', TaskStarted ''https://g.test'',
          BatchSettled [''https://f.test'', ''https://g.test'']])"
proof -
  have p: "0 < PARALLEL_REQUESTS default_config"
    by (simp add: default_config_def)
  have failed: "crawlDomain default_config (constant_world Failed) d =
                  \<lparr>domain = d, productUrls = []\<rparr>" for d
    by (simp add: crawlDomain_def crawlDomain_run_def initial_state_def crawlUrl.simps
          attempt.simps default_config_def constant_world_def Let_def)
  have cut: "batches (PARALLEL_REQUESTS default_config)
     [''https://a.test'', ''https://b.test'', ''https://c.test'', ''https://d.test'',
      ''https://e.test'', ''https://f.test'', ''https://g.test''] =
   [[''https://a.test'', ''https://b.test'', ''https://c.test'', ''https://d.test'',
     ''https://e.test''], [''https://f.test'', ''https://g.test'']]"
    by (simp add: batches.simps default_config_def)
  from crawlDomains_batch_order [OF p, of "constant_world Failed"
      "[''https://a.test'', ''https://b.test'', ''https://c.test'', ''https://d.test'',
        ''https://e.test'', ''https://f.test'', ''https://g.test'']"]
  obtain results history where
    run: "crawlDomains_run default_config (constant_world Failed)
      [''https://a.test'', ''https://b.test'', ''https://c.test'', ''https://d.test'',
       ''https://e.test'', ''https://f.test'', ''https://g.test''] = Some (results, history)"
    and h: "history = batch_history (batches (PARALLEL_REQUESTS default_config)
      [''https://a.test'', ''https://b.test'', ''https://c.test'', ''https://d.test'',
       ''https://e.test'', ''https://f.test'', ''https://g.test''])"
    and r: "results = concat (map (map (crawlDomain default_config (constant_world Failed)))
                                 (settled history))"
    by (elim exE conjE)
  have h': "history =
         [TaskStarted ''https://a.test'', TaskStarted ''https://b.test'',
          TaskStarted ''https://c.test'', TaskStarted ''https://d.test'',
          TaskStarted ''https://e.test'',
          BatchSettled [''https://a.test'', ''https://b.test'', ''https://c.test'',
                        ''https://d.test'', ''https://e.test''],
          TaskStarted ''https://f.test'', TaskStarted ''https://g.test'',
          BatchSettled [''https://f.test'', ''https://g.test'']]"
    unfolding h cut by (simp add: batch_history_def)
  show ?thesis
    unfolding run r h' by (simp add: failed)
qed

text \<open>
  Claim C9 as stated fails where the list does not fill its last batch: of the three
  domains of the entry point, with \<^verbatim>\<open>PARALLEL_REQUESTS = 5\<close>, the first pass of the
  loop starts three tasks, and they are the only batch.  And it fails for a limit of
  \<open>0\<close>: the index never advances, and the call does not return a result list.
\<close>

theorem crawlDomains_short_batch_counterexample:
  "crawlDomains_run default_config (constant_world Failed)
     [''https://example1.com'', ''https://example2.com'', ''https://example3.com''] =
   Some ([\<lparr>domain = ''https://example1.com'', productUrls = []\<rparr>,
          \<lparr>domain = ''https://example2.com'', productUrls = []\<rparr>,
          \<lparr>domain = ''https://example3.com'', productUrls = []\<rparr>],
         [TaskStarted ''https://example1.com'', TaskStarted ''https://example2.com'',
          TaskStarted ''https://example3.com'',
          BatchSettled [''https://example1.com'', ''https://example2.com'',
                        ''https://example3.com'']]) \<and>
   length [''https://example1.com'', ''https://example2.com'', ''https://example3.com''] \<noteq>
     PARALLEL_REQUESTS default_config \<and>
   crawlDomains (default_config\<lparr>PARALLEL_REQUESTS := 0\<rparr>) (constant_world Failed)
     [''https://example1.com'', ''https://example2.com'', ''https://example3.com''] = None"
proof -
  have p: "0 < PARALLEL_REQUESTS default_config"
    by (simp add: default_config_def)
  have failed: "crawlDomain default_config (constant_world Failed) d =
                  \<lparr>domain = d, productUrls = []\<rparr>" for d
    by (simp add: crawlDomain_def crawlDomain_run_def initial_state_def crawlUrl.simps
          attempt.simps default_config_def constant_world_def Let_def)
  have cut: "batches (PARALLEL_REQUESTS default_config)
     [''https://example1.com'', ''https://example2.com'', ''https://example3.com''] =
   [[''https://example1.com'', ''https://example2.com'', ''https://example3.com'']]"
    by (simp add: batches.simps default_config_def)
  have run: "crawlDomains_run default_config (constant_world Failed)
     [''https://example1.com'', ''https://example2.com'', ''https://example3.com''] =
   Some ([\<lparr>domain = ''https://example1.com'', productUrls = []\<rparr>,
          \<lparr>domain = ''https://example2.com'', productUrls = []\<rparr>,
          \<lparr>domain = ''https://example3.com'', productUrls = []\<rparr>],
         [TaskStarted ''https://example1.com'', TaskStarted ''https://example2.com'',
          TaskStarted ''https://example3.com'',
          BatchSettled [''https://example1.com'', ''https://example2.com'',
                        ''https://example3.com'']])"
    unfolding crawlDomains_run_def crawlDomains_loop_batches[OF p]
    by (simp add: cut failed batch_history_def)
  have short: "length [''https://example1.com'', ''https://example2.com'',
                       ''https://example3.com''] \<noteq> PARALLEL_REQUESTS default_config"
    by (simp add: default_config_def)
  have never: "crawlDomains (default_config\<lparr>PARALLEL_REQUESTS := 0\<rparr>) (constant_world Failed)
     [''https://example1.com'', ''https://example2.com'', ''https://example3.com''] = None"
    unfolding crawlDomains_def crawlDomains_run_def
    by (simp add: crawlDomains_loop_never_returns)
  from run short never show ?thesis by (intro conjI)
qed

end
